theory Spec2Isabelle
  imports Main "HOL-Library.Word"
begin

unbundle bit_operations_syntax

section \<open>The data model of gobblet.cpp\<close>

text \<open>
  A game state is a 64-bit unsigned integer whose low 54 bits are the bitboard: 6 bits for
  each of the 9 squares, 2 bits for each piece size, \<open>01\<close> for a piece of the player to
  move and \<open>10\<close> for a piece of the opponent. The upper 10 bits of a stored word carry the
  win/loss/draw value. \<open>unsigned\<close> locals of the source hold values below 64 only and are
  kept as 64-bit words; \<open>int\<close> locals are \<open>int\<close>.
\<close>

type_synonym State = "64 word"

record Move =
  start :: int
  end' :: int

text \<open>The rule variation of a \<open>Game\<close> object.\<close>

record Rules =
  num_sizes :: int
  num_per_size :: int
  allow_move :: bool

definition HASH_EXP :: nat where
  "HASH_EXP = 29"

definition HASH_MASK :: "64 word" where
  "HASH_MASK = push_bit HASH_EXP 1 - 1"

definition STATE_EMPTY :: State where
  "STATE_EMPTY = 0x3"

definition STATE_MASK :: State where
  "STATE_MASK = push_bit 54 1 - 1"

text \<open>
  The expression \<open>(s >> (6 * q)) & 0x3f\<close>, which the source writes out at every place where
  it reads the stack of pieces of square \<open>q\<close>.
\<close>

definition pieces_at :: "State \<Rightarrow> nat \<Rightarrow> 64 word" where
  "pieces_at s q = drop_bit (6 * q) s AND 0x3f"

text \<open>
  A board is a word that uses the low 54 bits only, that is, one that the test
  \<open>(w & STATE_MASK) == s\<close> of the hash map accepts as a key: the source's
  ``game state'' (``a 54-bit bitboard'').
\<close>

definition board :: "State \<Rightarrow> bool" where
  "board s \<longleftrightarrow> s AND STATE_MASK = s"

subsection \<open>Packing the value into the upper 10 bits\<close>

definition pack :: "int \<Rightarrow> 64 word \<Rightarrow> State" where
  "pack v moves =
     (if v = - 1 then 0 else push_bit 62 1) XOR
     push_bit 54 (if v = 1 then moves else 0 - (moves + 1))"

definition unpack_value :: "State \<Rightarrow> int" where
  "unpack_value s = 2 - uint (drop_bit 62 s)"

definition unpack_moves :: "State \<Rightarrow> 64 word" where
  "unpack_moves s =
     (let moves = signed_drop_bit 56 (push_bit 2 s)
      in if moves <s 0 then - moves - 1 else moves)"

subsection \<open>Swapping colours and the board symmetries\<close>

definition swap :: "State \<Rightarrow> State" where
  "swap s = drop_bit 1 (s AND 0x2aaaaaaaaaaaaa) OR push_bit 1 (s AND 0x15555555555555)"

definition flipud :: "State \<Rightarrow> State" where
  "flipud s = (push_bit 36 s AND 0x3ffff000000000) OR (s AND 0xffffc0000) OR drop_bit 36 s"

definition antitranspose :: "State \<Rightarrow> State" where
  "antitranspose s =
     (push_bit 48 s AND 0x3f000000000000) OR (push_bit 24 s AND 0xfc0fc0000000) OR
     (s AND 0x3f03f03f000) OR (drop_bit 24 s AND 0xfc0fc0) OR drop_bit 48 s"

definition canonical :: "State \<Rightarrow> State" where
  "canonical s0 =
     (let min_s = s0;
          s = flipud s0;       min_s = (if s < min_s then s else min_s);
          s = antitranspose s; min_s = (if s < min_s then s else min_s);
          s = flipud s;        min_s = (if s < min_s then s else min_s);
          s = antitranspose s; min_s = (if s < min_s then s else min_s);
          s = flipud s;        min_s = (if s < min_s then s else min_s);
          s = antitranspose s; min_s = (if s < min_s then s else min_s);
          s = flipud s;        min_s = (if s < min_s then s else min_s)
      in min_s)"

subsection \<open>Terminal positions\<close>

definition lines :: "nat list list" where
  "lines = [[0, 1, 2], [3, 4, 5], [6, 7, 8],
            [0, 3, 6], [1, 4, 7], [2, 5, 8],
            [0, 4, 8], [2, 4, 6]]"

text \<open>The loop \<open>for (; pieces > 0x3; pieces >>= 2);\<close> that leaves the top piece.\<close>

function top_loop :: "64 word \<Rightarrow> 64 word" where
  "top_loop pieces = (if pieces > 0x3 then top_loop (drop_bit 2 pieces) else pieces)"
  by pat_completeness auto
termination
proof (relation "measure unat")
  fix pieces :: "64 word"
  assume "3 < pieces"
  then have "unat pieces \<noteq> 0"
    by (auto simp: unat_eq_0)
  then have "unat pieces div 4 < unat pieces"
    by simp
  then show "(drop_bit 2 pieces, pieces) \<in> measure unat"
    by (simp add: unat_drop_bit_eq drop_bit_eq_div unat_div)
qed simp

declare top_loop.simps [simp del]

text \<open>
  The loop over the three squares of one line; \<open>lw\<close> is \<open>line_winner\<close>, and each
  \<open>break\<close> of the source leaves the loop with \<open>line_winner = 0\<close>.
\<close>

fun line_loop :: "State \<Rightarrow> nat list \<Rightarrow> 64 word \<Rightarrow> 64 word" where
  "line_loop s [] lw = lw"
| "line_loop s (q # qs) lw =
     (let pieces = top_loop (pieces_at s q)
      in if pieces = 0 then 0
         else if lw = 0 then line_loop s qs pieces
         else if pieces \<noteq> lw then 0
         else line_loop s qs lw)"

text \<open>The loop over the eight lines; a line of the player to move ends it at once.\<close>

fun lines_loop :: "State \<Rightarrow> nat list list \<Rightarrow> int \<Rightarrow> int" where
  "lines_loop s [] v = v"
| "lines_loop s (line # rest) v =
     (let line_winner = line_loop s line 0
      in if line_winner = 1 then 1
         else if line_winner = 2 then lines_loop s rest (- 1)
         else lines_loop s rest v)"

definition get_terminal_value :: "State \<Rightarrow> int" where
  "get_terminal_value s = lines_loop s lines 0"

section \<open>Notions of the specification\<close>

text \<open>
  The 2-bit field of size \<open>k + 1\<close> on square \<open>q\<close>, and the owner of a square: ``the 2-bit
  field of the largest present size''.
\<close>

definition field :: "State \<Rightarrow> nat \<Rightarrow> nat \<Rightarrow> 64 word" where
  "field s q k = drop_bit (6 * q + 2 * k) s AND 3"

definition top_owner :: "State \<Rightarrow> nat \<Rightarrow> 64 word" where
  "top_owner s q =
     (if field s q 2 \<noteq> 0 then field s q 2
      else if field s q 1 \<noteq> 0 then field s q 1
      else field s q 0)"

text \<open>
  A side (\<open>1\<close> the player to move, \<open>2\<close> the opponent) has a three-in-a-row when it owns
  the top piece of all three squares of some row, column or diagonal.
\<close>

definition line_exists :: "(nat \<Rightarrow> bool) \<Rightarrow> bool" where
  "line_exists P \<longleftrightarrow> (\<exists>l \<in> set lines. \<forall>q \<in> set l. P q)"

definition has_line :: "State \<Rightarrow> 64 word \<Rightarrow> bool" where
  "has_line s side \<longleftrightarrow> (\<exists>line \<in> set lines. \<forall>q \<in> set line. top_owner s q = side)"

text \<open>
  The permutations of the squares behind \<open>flipud\<close> (rows 0 and 2 exchanged) and
  \<open>antitranspose\<close> (reflection about the off-diagonal): square \<open>q\<close> of the image is square
  \<open>fu q\<close>, respectively \<open>at q\<close>, of the original.
\<close>

definition fu :: "nat \<Rightarrow> nat" where
  "fu q = (if q < 3 then q + 6 else if q < 6 then q else q - 6)"

definition at :: "nat \<Rightarrow> nat" where
  "at q = 8 - 3 * (q mod 3) - q div 3"

text \<open>
  The eight boards that \<open>canonical\<close> compares, in the order in which it builds them, and
  the group generated by the two reflections, as the set of their finite compositions.
\<close>

definition orbit :: "State \<Rightarrow> State list" where
  "orbit s =
     [s, flipud s, antitranspose (flipud s), flipud (antitranspose (flipud s)),
      antitranspose (flipud (antitranspose (flipud s))),
      flipud (antitranspose (flipud (antitranspose (flipud s)))),
      antitranspose (flipud (antitranspose (flipud (antitranspose (flipud s))))),
      flipud (antitranspose (flipud (antitranspose (flipud (antitranspose (flipud s))))))]"

inductive_set dihedral :: "(State \<Rightarrow> State) set" where
  identity: "id \<in> dihedral"
| after_flipud: "g \<in> dihedral \<Longrightarrow> flipud \<circ> g \<in> dihedral"
| after_antitranspose: "g \<in> dihedral \<Longrightarrow> antitranspose \<circ> g \<in> dihedral"

section \<open>Swap is an involution\<close>

lemma bit_odd_fields: "bit (0x2aaaaaaaaaaaaa :: 64 word) n \<longleftrightarrow> n < 54 \<and> odd n"
proof (cases "n < 64")
  case True
  then have "n \<in> {0..<64}" by (simp only: atLeastLessThan_iff) simp
  then show ?thesis
    unfolding atLeastLessThan_nat_numeral pred_numeral_simps Num.BitM.simps
    apply (simp only: simp_thms if_True if_False le0 arith_simps
        atLeastLessThan_empty[of "0::nat" "0", simplified])
    apply (elim insertE emptyE)
    apply simp_all
    done
next
  case False
  then show ?thesis by (auto dest: bit_imp_le_length)
qed

lemma bit_even_fields: "bit (0x15555555555555 :: 64 word) n \<longleftrightarrow> n < 54 \<and> even n"
proof (cases "n < 64")
  case True
  then have "n \<in> {0..<64}" by (simp only: atLeastLessThan_iff) simp
  then show ?thesis
    unfolding atLeastLessThan_nat_numeral pred_numeral_simps Num.BitM.simps
    apply (simp only: simp_thms if_True if_False le0 arith_simps
        atLeastLessThan_empty[of "0::nat" "0", simplified])
    apply (elim insertE emptyE)
    apply simp_all
    done
next
  case False
  then show ?thesis by (auto dest: bit_imp_le_length)
qed

lemma STATE_MASK_eq: "STATE_MASK = mask 54"
  by (simp add: STATE_MASK_def mask_eq_exp_minus_1)

lemma bit_swap:
  "bit (swap s) n \<longleftrightarrow> n < 54 \<and> (if even n then bit s (Suc n) else bit s (n - 1))"
proof -
  have "bit (swap s) n \<longleftrightarrow>
      (bit s (n + 1) \<and> Suc n < 54 \<and> odd (Suc n)) \<or>
      (1 \<le> n \<and> n < 64 \<and> bit s (n - 1) \<and> n - 1 < 54 \<and> even (n - 1))"
    unfolding swap_def
    by (simp only: bit_or_iff bit_drop_bit_eq bit_push_bit_iff bit_and_iff
        bit_odd_fields bit_even_fields possible_bit_word len_bit0 len_num1 o_def)
      (auto simp: ac_simps)
  also have "\<dots> \<longleftrightarrow> n < 54 \<and> (if even n then bit s (Suc n) else bit s (n - 1))"
    by (cases "even n") (auto dest: bit_imp_le_length simp: less_Suc_eq_le elim!: oddE)
  finally show ?thesis .
qed

lemma swap_swap_mask: "swap (swap s) = s AND STATE_MASK"
  by (rule bit_word_eqI)
    (auto simp add: bit_swap STATE_MASK_eq bit_and_iff bit_mask_iff elim!: oddE)


text \<open>
  Claim C8. Swap is an involution: for every game state \<open>s\<close> (a 54-bit bitboard),
  \<open>swap (swap s) = s\<close>. On an arbitrary 64-bit word the two masks of \<open>swap\<close> clear the
  upper 10 bits (lemma \<open>swap_swap_mask\<close>).
\<close>

theorem swap_involution: "board s \<Longrightarrow> swap (swap s) = s"
  by (simp add: swap_swap_mask board_def)

theorem swap_involution_witness: "board 0x1081 \<and> swap (swap 0x1081) = 0x1081"
  using swap_involution [of "0x1081"] by (simp add: board_def STATE_MASK_def)

section \<open>Packing and unpacking the value\<close>

lemma board_bit: "board s \<Longrightarrow> bit s n \<Longrightarrow> n < 54"
  unfolding board_def STATE_MASK_eq
  by (metis bit_and_iff bit_mask_iff)

lemma lt_bit: "(k :: 64 word) < 2 ^ m \<Longrightarrow> bit k n \<Longrightarrow> n < m"
  by (metis bit_take_bit_iff less_mask_eq take_bit_eq_mask)

lemma neg_succ: "0 - (k + 1) = NOT (k :: 64 word)"
  by (simp add: not_eq_complement)

lemma bit_push_1: "bit (push_bit m (1::64 word)) n \<longleftrightarrow> n = m \<and> m < 64"
  by (simp only: bit_push_bit_iff bit_1_iff possible_bit_word) auto

lemma bit_pack:
  "bit (pack v k) n \<longleftrightarrow>
     ((v \<noteq> - 1 \<and> n = 62) \<noteq>
      (54 \<le> n \<and> n < 64 \<and> (if v = 1 then bit k (n - 54) else \<not> bit k (n - 54))))"
proof -
  have "bit (pack v k) n \<longleftrightarrow>
     (bit (if v = - 1 then 0 else push_bit 62 1 :: 64 word) n \<noteq>
      bit (push_bit 54 (if v = 1 then k else NOT k)) n)"
    unfolding pack_def neg_succ by (simp only: bit_xor_iff)
  also have "bit (if v = - 1 then 0 else push_bit 62 1 :: 64 word) n \<longleftrightarrow> v \<noteq> - 1 \<and> n = 62"
    by (simp only: bit_push_1 if_distrib[of "\<lambda>w. bit w n"] bit_0_eq) auto
  also have "bit (push_bit 54 (if v = 1 then k else NOT k)) n \<longleftrightarrow>
     54 \<le> n \<and> n < 64 \<and> (if v = 1 then bit k (n - 54) else \<not> bit k (n - 54))"
    by (simp only: bit_push_bit_iff possible_bit_word
        if_distrib[of "\<lambda>w. bit w (n - 54)"] bit_not_iff) auto
  finally show ?thesis .
qed

lemma bit_small_numerals:
  "bit (1 :: 64 word) n \<longleftrightarrow> n = 0"
  "bit (2 :: 64 word) n \<longleftrightarrow> n = 1"
  "bit (3 :: 64 word) n \<longleftrightarrow> n < 2"
proof -
  show "bit (1 :: 64 word) n \<longleftrightarrow> n = 0" by (simp add: bit_1_iff)
  have "(2 :: 64 word) = push_bit 1 1" by simp
  then show "bit (2 :: 64 word) n \<longleftrightarrow> n = 1" by (simp only: bit_push_1) simp
  have "(3 :: 64 word) = mask 2" by (simp add: mask_eq_exp_minus_1)
  then show "bit (3 :: 64 word) n \<longleftrightarrow> n < 2" by (simp only: bit_mask_iff) auto
qed

lemma signed_shift_pack:
  assumes "board b" "k < 128"
  shows "signed_drop_bit 56 (push_bit 2 (b OR pack v k)) = (if v = 1 then k else NOT k)"
proof (rule bit_word_eqI)
  fix n assume n: "n < LENGTH(64)"
  have k: "\<And>i. bit k i \<Longrightarrow> i < 7" using lt_bit[of k 7] assms(2) by simp
  have b: "\<And>i. bit b i \<Longrightarrow> i < 54" using board_bit[OF assms(1)] .
  show "bit (signed_drop_bit 56 (push_bit 2 (b OR pack v k))) n =
        bit (if v = 1 then k else NOT k) n"
    using n
    by (cases "n < 8")
      (auto simp add: bit_signed_drop_bit_iff bit_push_bit_iff bit_or_iff bit_pack bit_not_iff
        dest: k b)
qed

lemma high_bits_pack:
  assumes "board b" "k < 128"
  shows "drop_bit 62 (b OR pack v k) = (if v = 1 then 1 else if v = - 1 then 3 else 2)"
proof (rule bit_word_eqI)
  fix n assume n: "n < LENGTH(64)"
  have k: "\<And>i. bit k i \<Longrightarrow> i < 7" using lt_bit[of k 7] assms(2) by simp
  have b: "\<And>i. bit b i \<Longrightarrow> i < 54" using board_bit[OF assms(1)] .
  show "bit (drop_bit 62 (b OR pack v k)) n =
        bit (if v = 1 then 1 else if v = - 1 then 3 else 2 :: 64 word) n"
    using n
    by (auto simp add: bit_drop_bit_eq bit_or_iff bit_pack bit_small_numerals
          simp del: bit_numeral_word_iff dest: k b)
qed

lemma board_0: "board 0"
  by (simp add: board_def)

lemma depth_bits_pack:
  assumes "k < 128"
  shows "take_bit 8 (drop_bit 54 (pack v k)) = (if v = 1 then k else take_bit 8 (- (k + 1)))"
proof (rule bit_word_eqI)
  fix n assume n: "n < LENGTH(64)"
  have k: "\<And>i. bit k i \<Longrightarrow> i < 7" using lt_bit[of k 7] assms by simp
  have m: "- (k + 1) = NOT k" using neg_succ[of k] by simp
  show "bit (take_bit 8 (drop_bit 54 (pack v k))) n =
        bit (if v = 1 then k else take_bit 8 (- (k + 1))) n"
    unfolding m using n
    by (auto simp add: bit_take_bit_iff bit_drop_bit_eq bit_pack bit_not_iff dest: k)
qed

lemma unpack_value_pack:
  assumes "board b" "k < 128" "v \<in> {- 1, 0, 1}"
  shows "unpack_value (b OR pack v k) = v"
  unfolding unpack_value_def high_bits_pack[OF assms(1,2)] using assms(3) by auto

lemma unpack_moves_pack:
  assumes "board b" "k < 128"
  shows "unpack_moves (b OR pack v k) = k"
proof -
  have k: "\<And>i. bit k i \<Longrightarrow> i < 7" using lt_bit[of k 7] assms(2) by simp
  have "\<not> bit k 63" using k by fastforce
  then have 1: "\<not> k <s 0" and 2: "NOT k <s 0"
    using bit_last_iff[of k] bit_last_iff[of "NOT k"]
    by (simp_all add: word_sless_alt bit_not_iff)
  have 3: "- (NOT k) - 1 = k" by (simp add: not_eq_complement)
  show ?thesis
    unfolding unpack_moves_def signed_shift_pack[OF assms] Let_def using 1 2 3 by simp
qed

text \<open>
  Claim C6. Pack/unpack round trip: for every value \<open>v\<close> in \<open>{-1, 0, 1}\<close>, every count
  \<open>k < 128\<close> and every 54-bit board word \<open>b\<close>, \<open>unpack_value (b | pack v k) = v\<close> and
  \<open>unpack_moves (b | pack v k) = k\<close>. The two high bits of \<open>pack v k\<close> are \<open>01\<close> for a
  win, \<open>11\<close> for a loss and \<open>10\<close> for a tentative draw, and bits 54..61 hold \<open>k\<close> itself
  for a win and the 8-bit two's complement of \<open>-(k+1)\<close> for a loss or a draw.
\<close>

theorem pack_unpack_roundtrip:
  assumes "board b" and "k < 128" and "v \<in> {- 1, 0, 1}"
  shows "unpack_value (b OR pack v k) = v \<and> unpack_moves (b OR pack v k) = k \<and>
         drop_bit 62 (pack v k) = (if v = 1 then 1 else if v = - 1 then 3 else 2) \<and>
         take_bit 8 (drop_bit 54 (pack v k)) = (if v = 1 then k else take_bit 8 (- (k + 1)))"
  using unpack_value_pack[OF assms] unpack_moves_pack[OF assms(1,2)]
    high_bits_pack[OF board_0 assms(2), of v] depth_bits_pack[OF assms(2), of v]
  by simp

theorem pack_unpack_roundtrip_witness:
  "board 0x1081 \<and> (5 :: 64 word) < 128 \<and> (- 1 :: int) \<in> {- 1, 0, 1} \<and>
   unpack_value (0x1081 OR pack (- 1) 5) = - 1 \<and> unpack_moves (0x1081 OR pack (- 1) 5) = 5 \<and>
   drop_bit 62 (pack (- 1) 5) = 3 \<and> take_bit 8 (drop_bit 54 (pack (- 1) 5)) = 250"
  using pack_unpack_roundtrip [of "0x1081" 5 "- 1"]
  by (simp add: board_def STATE_MASK_def)

section \<open>Squares, stacks and the two reflections, bit by bit\<close>

lemma bit_mask_3f: "bit (0x3f :: 64 word) n \<longleftrightarrow> n < 6"
proof -
  have "(0x3f :: 64 word) = mask 6" by (simp add: mask_eq_exp_minus_1)
  then show ?thesis by (simp only: bit_mask_iff) auto
qed

lemma shifted_mask: "push_bit a (mask b :: 64 word) = w \<Longrightarrow> bit w n \<longleftrightarrow> a \<le> n \<and> n < a + b \<and> n < 64"
  by (auto simp add: bit_push_bit_iff bit_mask_iff)

lemma bit_fu_masks:
  "bit (0x3ffff000000000 :: 64 word) n \<longleftrightarrow> 36 \<le> n \<and> n < 54"
  "bit (0xffffc0000 :: 64 word) n \<longleftrightarrow> 18 \<le> n \<and> n < 36"
proof -
  have e: "push_bit 36 (mask 18 :: 64 word) = 0x3ffff000000000"
    by (simp add: mask_eq_exp_minus_1 push_bit_eq_mult)
  show "bit (0x3ffff000000000 :: 64 word) n \<longleftrightarrow> 36 \<le> n \<and> n < 54"
    unfolding shifted_mask[OF e] by arith
  have e: "push_bit 18 (mask 18 :: 64 word) = 0xffffc0000"
    by (simp add: mask_eq_exp_minus_1 push_bit_eq_mult)
  show "bit (0xffffc0000 :: 64 word) n \<longleftrightarrow> 18 \<le> n \<and> n < 36"
    unfolding shifted_mask[OF e] by arith
qed

lemma shifted_mask2: "push_bit a (mask 6 :: 64 word) OR push_bit b (mask 6) = w \<Longrightarrow>
   bit w n \<longleftrightarrow> ((a \<le> n \<and> n < a + 6) \<or> (b \<le> n \<and> n < b + 6)) \<and> n < 64"
  by (auto simp add: bit_or_iff bit_push_bit_iff bit_mask_iff)

lemma shifted_mask3: "push_bit a (mask 6 :: 64 word) OR push_bit b (mask 6) OR push_bit c (mask 6) = w \<Longrightarrow>
   bit w n \<longleftrightarrow> ((a \<le> n \<and> n < a + 6) \<or> (b \<le> n \<and> n < b + 6) \<or> (c \<le> n \<and> n < c + 6)) \<and> n < 64"
  by (auto simp add: bit_or_iff bit_push_bit_iff bit_mask_iff)

lemma bit_at_masks:
  "bit (0x3f000000000000 :: 64 word) n \<longleftrightarrow> 48 \<le> n \<and> n < 54"
  "bit (0xfc0fc0000000 :: 64 word) n \<longleftrightarrow> (30 \<le> n \<and> n < 36) \<or> (42 \<le> n \<and> n < 48)"
  "bit (0x3f03f03f000 :: 64 word) n \<longleftrightarrow> (12 \<le> n \<and> n < 18) \<or> (24 \<le> n \<and> n < 30) \<or> (36 \<le> n \<and> n < 42)"
  "bit (0xfc0fc0 :: 64 word) n \<longleftrightarrow> (6 \<le> n \<and> n < 12) \<or> (18 \<le> n \<and> n < 24)"
proof -
  have e: "push_bit 48 (mask 6 :: 64 word) = 0x3f000000000000"
    by (simp add: mask_eq_exp_minus_1 push_bit_eq_mult)
  show "bit (0x3f000000000000 :: 64 word) n \<longleftrightarrow> 48 \<le> n \<and> n < 54"
    unfolding shifted_mask[OF e] by arith
  have e: "push_bit 30 (mask 6 :: 64 word) OR push_bit 42 (mask 6) = 0xfc0fc0000000"
    by (simp add: mask_eq_exp_minus_1 push_bit_eq_mult)
  show "bit (0xfc0fc0000000 :: 64 word) n \<longleftrightarrow> (30 \<le> n \<and> n < 36) \<or> (42 \<le> n \<and> n < 48)"
    unfolding shifted_mask2[OF e] by arith
  have e: "push_bit 12 (mask 6 :: 64 word) OR push_bit 24 (mask 6) OR push_bit 36 (mask 6) = 0x3f03f03f000"
    by (simp add: mask_eq_exp_minus_1 push_bit_eq_mult)
  show "bit (0x3f03f03f000 :: 64 word) n \<longleftrightarrow> (12 \<le> n \<and> n < 18) \<or> (24 \<le> n \<and> n < 30) \<or> (36 \<le> n \<and> n < 42)"
    unfolding shifted_mask3[OF e] by arith
  have e: "push_bit 6 (mask 6 :: 64 word) OR push_bit 18 (mask 6) = 0xfc0fc0"
    by (simp add: mask_eq_exp_minus_1 push_bit_eq_mult)
  show "bit (0xfc0fc0 :: 64 word) n \<longleftrightarrow> (6 \<le> n \<and> n < 12) \<or> (18 \<le> n \<and> n < 24)"
    unfolding shifted_mask2[OF e] by arith
qed

lemma bit_pieces_at: "bit (pieces_at s q) n \<longleftrightarrow> n < 6 \<and> bit s (6 * q + n)"
  unfolding pieces_at_def
  by (simp only: bit_and_iff bit_drop_bit_eq bit_mask_3f) auto

lemma bit_flipud:
  "bit (flipud s) n \<longleftrightarrow> (36 \<le> n \<and> n < 54 \<and> bit s (n - 36)) \<or> (18 \<le> n \<and> n < 36 \<and> bit s n) \<or> bit s (n + 36)"
  unfolding flipud_def
  apply (simp only: bit_or_iff bit_and_iff bit_push_bit_iff bit_drop_bit_eq bit_fu_masks possible_bit_word)
  apply (simp only: len_bit0 len_num1 o_def add.commute[of 36 n])
  apply auto
  done

lemma bit_antitranspose:
  "bit (antitranspose s) n \<longleftrightarrow>
     (48 \<le> n \<and> n < 54 \<and> bit s (n - 48)) \<or>
     (((30 \<le> n \<and> n < 36) \<or> (42 \<le> n \<and> n < 48)) \<and> bit s (n - 24)) \<or>
     (((12 \<le> n \<and> n < 18) \<or> (24 \<le> n \<and> n < 30) \<or> (36 \<le> n \<and> n < 42)) \<and> bit s n) \<or>
     (((6 \<le> n \<and> n < 12) \<or> (18 \<le> n \<and> n < 24)) \<and> bit s (n + 24)) \<or>
     bit s (n + 48)"
  unfolding antitranspose_def
  apply (simp only: bit_or_iff bit_and_iff bit_push_bit_iff bit_drop_bit_eq bit_at_masks possible_bit_word)
  apply (simp only: len_bit0 len_num1 o_def add.commute[of 24 n] add.commute[of 48 n])
  apply (intro arg_cong2[where f="(\<or>)"])
  apply auto
  done

lemma board_iff_bits: "board s \<longleftrightarrow> (\<forall>n. bit s n \<longrightarrow> n < 54)"
proof
  assume "board s" then show "\<forall>n. bit s n \<longrightarrow> n < 54" using board_bit by blast
next
  assume a: "\<forall>n. bit s n \<longrightarrow> n < 54"
  show "board s" unfolding board_def STATE_MASK_eq
    by (rule bit_word_eqI) (use a in \<open>auto simp add: bit_and_iff bit_mask_iff\<close>)
qed

lemma board_flipud: "board (flipud s)"
  unfolding board_iff_bits bit_flipud by (auto dest: bit_imp_le_length)

lemma board_antitranspose: "board (antitranspose s)"
  unfolding board_iff_bits bit_antitranspose by (auto dest: bit_imp_le_length)

lemma sq_cases: "q < 9 \<Longrightarrow> q = 0 \<or> q = 1 \<or> q = 2 \<or> q = 3 \<or> q = 4 \<or> q = 5 \<or> q = 6 \<or> q = 7 \<or> q = (8::nat)"
  by arith

lemma pieces_at_flipud:
  assumes "board s" "q < 9"
  shows "pieces_at (flipud s) q = pieces_at s (fu q)"
proof (rule bit_word_eqI)
  fix n assume "n < LENGTH(64)"
  have b: "\<And>i. bit s i \<Longrightarrow> i < 54" using board_bit[OF assms(1)] .
  show "bit (pieces_at (flipud s) q) n = bit (pieces_at s (fu q)) n"
    unfolding bit_pieces_at bit_flipud fu_def using sq_cases[OF assms(2)]
    by (elim disjE) (auto dest: b simp: add.commute)
qed

lemma pieces_at_antitranspose:
  assumes "board s" "q < 9"
  shows "pieces_at (antitranspose s) q = pieces_at s (at q)"
proof (rule bit_word_eqI)
  fix n assume "n < LENGTH(64)"
  have b: "\<And>i. bit s i \<Longrightarrow> i < 54" using board_bit[OF assms(1)] .
  show "bit (pieces_at (antitranspose s) q) n = bit (pieces_at s (at q)) n"
    unfolding bit_pieces_at bit_antitranspose at_def using sq_cases[OF assms(2)]
    by (elim disjE) (auto dest: b simp: add.commute)
qed

section \<open>The top piece of a square\<close>

lemma gt3_iff: "3 < (w :: 64 word) \<longleftrightarrow> drop_bit 2 w \<noteq> 0"
proof -
  have "drop_bit 2 w = 0 \<longleftrightarrow> unat w div 4 = 0"
    by (simp add: unat_eq_0[symmetric] unat_drop_bit_eq drop_bit_eq_div unat_div del: unat_eq_0)
  then show ?thesis
    by (auto simp add: word_less_nat_alt)
qed

lemma bit_3: "bit (3 :: 64 word) n \<longleftrightarrow> n < 2"
  by (rule bit_small_numerals)

lemma bit_field: "bit (field s q k) n \<longleftrightarrow> n < 2 \<and> bit s (6 * q + 2 * k + n)"
  unfolding field_def
  by (simp only: bit_and_iff bit_drop_bit_eq bit_3) auto

lemma field_pieces_at: "k < 3 \<Longrightarrow> drop_bit (2 * k) (pieces_at s q) AND 3 = field s q k"
  by (rule bit_word_eqI)
     (auto simp add: bit_and_iff bit_drop_bit_eq bit_3 bit_field bit_pieces_at ac_simps
        simp del: bit_numeral_word_iff)

lemma drop4_pieces_at: "drop_bit 4 (pieces_at s q) = field s q 2"
  by (rule bit_word_eqI)
     (auto simp add: bit_drop_bit_eq bit_field bit_pieces_at ac_simps)

lemma field_0_bits: "field s q k = 0 \<longleftrightarrow> \<not> bit s (6 * q + 2 * k) \<and> \<not> bit s (6 * q + 2 * k + 1)"
proof -
  have "field s q k = 0 \<longleftrightarrow> (\<forall>n. \<not> bit (field s q k) n)"
    using bit_eq_iff[of "field s q k" 0] by (auto dest: bit_imp_le_length)
  also have "\<dots> \<longleftrightarrow> (\<forall>n<2. \<not> bit s (6 * q + 2 * k + n))"
    unfolding bit_field by auto
  also have "\<dots> \<longleftrightarrow> \<not> bit s (6 * q + 2 * k) \<and> \<not> bit s (6 * q + 2 * k + 1)"
    by (auto simp add: less_2_cases_iff)
  finally show ?thesis .
qed

lemma field_0_bit: "field s q k = 0 \<Longrightarrow> 2 * k \<le> n \<Longrightarrow> n < 2 * k + 2 \<Longrightarrow> \<not> bit s (6 * q + n)"
proof -
  assume a: "field s q k = 0" "2 * k \<le> n" "n < 2 * k + 2"
  then have "n = 2 * k \<or> n = 2 * k + 1" by arith
  with a(1) show ?thesis unfolding field_0_bits by (auto simp: add.assoc)
qed

lemma drop2_pieces_at: 
  assumes "field s q 2 = 0" shows "drop_bit 2 (pieces_at s q) = field s q 1"
proof (rule bit_word_eqI)
  fix n assume "n < LENGTH(64)"
  have "n < 4 \<Longrightarrow> bit s (6 * q + (2 + n)) \<Longrightarrow> n < 2"
    using field_0_bit[OF assms, of "2 + n"] by (cases "n < 2") auto
  then show "bit (drop_bit 2 (pieces_at s q)) n = bit (field s q 1) n"
    by (auto simp add: bit_drop_bit_eq bit_field bit_pieces_at add.assoc)
qed

lemma drop0_pieces_at: 
  assumes "field s q 2 = 0" "field s q 1 = 0" shows "pieces_at s q = field s q 0"
proof (rule bit_word_eqI)
  fix n assume "n < LENGTH(64)"
  have "n < 6 \<Longrightarrow> bit s (6 * q + n) \<Longrightarrow> n < 2"
    using field_0_bit[OF assms(1), of n] field_0_bit[OF assms(2), of n] 
    by (cases "n < 2"; cases "n < 4") auto
  then show "bit (pieces_at s q) n = bit (field s q 0) n"
    by (auto simp add: bit_field bit_pieces_at)
qed

lemma field_le_3: "field s q k \<le> 3"
  unfolding field_def by (rule word_and_le1)

lemma top_loop_small: "w \<le> 3 \<Longrightarrow> top_loop w = w"
  by (subst top_loop.simps) (simp only: not_less[symmetric] if_False)

lemma top_loop_step: "3 < w \<Longrightarrow> top_loop w = top_loop (drop_bit 2 w)"
  by (subst top_loop.simps) (simp only: if_True)

lemma top_loop_pieces_at: "top_loop (pieces_at s q) = top_owner s q"
proof -
  let ?p = "pieces_at s q"
  have d4: "drop_bit 2 (drop_bit 2 ?p) = field s q 2"
    by (simp add: drop_bit_drop_bit drop4_pieces_at)
  have g2: "3 < drop_bit 2 ?p \<longleftrightarrow> field s q 2 \<noteq> 0"
    unfolding gt3_iff d4 ..
  have g1: "3 < ?p \<longleftrightarrow> drop_bit 2 ?p \<noteq> 0"
    by (rule gt3_iff)
  show ?thesis
  proof (cases "field s q 2 = 0")
    case False
    then have 2: "3 < drop_bit 2 ?p"
      using g2 by blast
    then have "drop_bit 2 ?p \<noteq> 0" by auto
    then have 1: "3 < ?p" using g1 by blast
    have "top_loop ?p = top_loop (drop_bit 2 (drop_bit 2 ?p))"
      using top_loop_step[OF 1] top_loop_step[OF 2] by (rule trans)
    also have "\<dots> = field s q 2"
      unfolding d4 by (rule top_loop_small[OF field_le_3])
    finally show ?thesis using False
      unfolding top_owner_def by (simp only: if_True simp_thms)
  next
    case f2: True
    then have "\<not> 3 < drop_bit 2 ?p"
      using g2 by blast
    then have 2: "drop_bit 2 ?p \<le> 3"
      by (simp only: not_less)
    have d2: "drop_bit 2 ?p = field s q 1"
      by (rule drop2_pieces_at[OF f2])
    show ?thesis
    proof (cases "field s q 1 = 0")
      case False
      then have 1: "3 < ?p" unfolding g1 d2 .
      have "top_loop ?p = drop_bit 2 ?p"
        using top_loop_step[OF 1] top_loop_small[OF 2] by (rule trans)
      then show ?thesis using False f2
        unfolding top_owner_def d2 by (simp only: if_True if_False simp_thms)
    next
      case True
      then have "\<not> 3 < ?p" unfolding g1 d2 by blast
      then have "?p \<le> 3" by (simp only: not_less)
      then have "top_loop ?p = ?p"
        by (rule top_loop_small)
      then show ?thesis using True f2
        unfolding top_owner_def drop0_pieces_at[OF f2 True] by (simp only: if_True if_False simp_thms)
    qed
  qed
qed

section \<open>Terminal positions\<close>

lemma line_loop_nonzero:
  "lw \<noteq> 0 \<Longrightarrow> line_loop s qs lw = (if \<forall>q \<in> set qs. top_owner s q = lw then lw else 0)"
  by (induction qs) (auto simp add: top_loop_pieces_at Let_def)

lemma line_loop_0:
  "side \<noteq> 0 \<Longrightarrow> line_loop s qs 0 = side \<longleftrightarrow> qs \<noteq> [] \<and> (\<forall>q \<in> set qs. top_owner s q = side)"
  by (cases qs) (auto simp add: top_loop_pieces_at Let_def line_loop_nonzero)

lemma lines_loop_eq:
  "lines_loop s ls v =
     (if \<exists>l \<in> set ls. line_loop s l 0 = 1 then 1
      else if \<exists>l \<in> set ls. line_loop s l 0 = 2 then - 1 else v)"
  by (induction ls arbitrary: v) (auto simp add: Let_def)

lemma lines_nonempty: "l \<in> set lines \<Longrightarrow> l \<noteq> []"
  by (auto simp add: lines_def)

lemma line_winner_iff:
  "side \<noteq> 0 \<Longrightarrow> (\<exists>l \<in> set lines. line_loop s l 0 = side) \<longleftrightarrow> has_line s side"
  unfolding has_line_def using lines_nonempty by (auto simp add: line_loop_0)

lemma get_terminal_value_eq:
  "get_terminal_value s = (if has_line s 1 then 1 else if has_line s 2 then - 1 else 0)"
  unfolding get_terminal_value_def lines_loop_eq
  using line_winner_iff[of 1 s] line_winner_iff[of 2 s] by simp

lemma field_flipud: "board s \<Longrightarrow> q < 9 \<Longrightarrow> k < 3 \<Longrightarrow> field (flipud s) q k = field s (fu q) k"
  using pieces_at_flipud[of s q] by (simp add: field_pieces_at[symmetric])

lemma field_antitranspose: "board s \<Longrightarrow> q < 9 \<Longrightarrow> k < 3 \<Longrightarrow> field (antitranspose s) q k = field s (at q) k"
  using pieces_at_antitranspose[of s q] by (simp add: field_pieces_at[symmetric])

lemma top_owner_flipud: "board s \<Longrightarrow> q < 9 \<Longrightarrow> top_owner (flipud s) q = top_owner s (fu q)"
  by (simp add: top_owner_def field_flipud)

lemma top_owner_antitranspose: "board s \<Longrightarrow> q < 9 \<Longrightarrow> top_owner (antitranspose s) q = top_owner s (at q)"
  by (simp add: top_owner_def field_antitranspose)

text \<open>
  Claim C3. For every state \<open>s\<close>, \<open>get_terminal_value s\<close> is in \<open>{-1, 0, 1}\<close>; it is \<open>1\<close>
  exactly when the side to move owns the top piece of all three squares of some row, column
  or diagonal, also when the opponent has such a line too; it is \<open>-1\<close> exactly when only
  the opponent has such a line, and \<open>0\<close> exactly when neither has one.
\<close>

theorem terminal_value_spec:
  "get_terminal_value s \<in> {- 1, 0, 1} \<and>
   (get_terminal_value s = 1 \<longleftrightarrow> has_line s 1) \<and>
   (get_terminal_value s = - 1 \<longleftrightarrow> \<not> has_line s 1 \<and> has_line s 2) \<and>
   (get_terminal_value s = 0 \<longleftrightarrow> \<not> has_line s 1 \<and> \<not> has_line s 2)"
  by (simp add: get_terminal_value_eq)

theorem terminal_value_spec_witness:
  "has_line 0x4410 1 \<and> \<not> has_line 0x4410 2 \<and> get_terminal_value 0x4410 = 1"
proof -
  have 1: "has_line 0x4410 1"
    by (simp add: has_line_def lines_def top_owner_def field_def)
  have 2: "\<not> has_line 0x4410 2"
    by (simp add: has_line_def lines_def top_owner_def field_def)
  from terminal_value_spec[of "0x4410"] 1 2 show ?thesis by blast
qed

section \<open>Terminal value and the board symmetries\<close>

lemma line_exists_unfold:
  "line_exists P \<longleftrightarrow>
     (P 0 \<and> P 1 \<and> P 2) \<or> (P 3 \<and> P 4 \<and> P 5) \<or> (P 6 \<and> P 7 \<and> P 8) \<or>
     (P 0 \<and> P 3 \<and> P 6) \<or> (P 1 \<and> P 4 \<and> P 7) \<or> (P 2 \<and> P 5 \<and> P 8) \<or>
     (P 0 \<and> P 4 \<and> P 8) \<or> (P 2 \<and> P 4 \<and> P 6)"
  unfolding line_exists_def lines_def by simp

lemma fu_values: "fu 0 = 6" "fu 1 = 7" "fu 2 = 8" "fu 3 = 3" "fu 4 = 4" "fu 5 = 5" "fu 6 = 0" "fu 7 = 1" "fu 8 = 2"
  by (simp_all add: fu_def)

lemma at_values: "at 0 = 8" "at 1 = 5" "at 2 = 2" "at 3 = 7" "at 4 = 4" "at 5 = 1" "at 6 = 6" "at 7 = 3" "at 8 = 0"
  by (simp_all add: at_def)

lemma line_exists_fu: "line_exists (\<lambda>q. P (fu q)) \<longleftrightarrow> line_exists P"
  unfolding line_exists_unfold fu_values by (rule iffI; elim disjE conjE; simp)

lemma line_exists_at: "line_exists (\<lambda>q. P (at q)) \<longleftrightarrow> line_exists P"
  unfolding line_exists_unfold at_values by (rule iffI; elim disjE conjE; simp)

lemma line_exists_cong: "(\<And>q. q < 9 \<Longrightarrow> P q = Q q) \<Longrightarrow> line_exists P = line_exists Q"
  unfolding line_exists_unfold by simp

lemma has_line_alt: "has_line s side \<longleftrightarrow> line_exists (\<lambda>q. top_owner s q = side)"
  unfolding has_line_def line_exists_def ..

lemma has_line_flipud: "board s \<Longrightarrow> has_line (flipud s) side \<longleftrightarrow> has_line s side"
  unfolding has_line_alt
  using line_exists_fu[of "\<lambda>q. top_owner s q = side"]
    line_exists_cong[of "\<lambda>q. top_owner (flipud s) q = side" "\<lambda>q. top_owner s (fu q) = side"]
  by (simp add: top_owner_flipud)

lemma has_line_antitranspose: "board s \<Longrightarrow> has_line (antitranspose s) side \<longleftrightarrow> has_line s side"
  unfolding has_line_alt
  using line_exists_at[of "\<lambda>q. top_owner s q = side"]
    line_exists_cong[of "\<lambda>q. top_owner (antitranspose s) q = side" "\<lambda>q. top_owner s (at q) = side"]
  by (simp add: top_owner_antitranspose)

lemma terminal_flipud: "board s \<Longrightarrow> get_terminal_value (flipud s) = get_terminal_value s"
  by (simp add: get_terminal_value_eq has_line_flipud)

lemma terminal_antitranspose:
  "board s \<Longrightarrow> get_terminal_value (antitranspose s) = get_terminal_value s"
  by (simp add: get_terminal_value_eq has_line_antitranspose)

section \<open>The canonical form\<close>

lemma board_eqI:
  assumes "board s" "board t" "\<And>q. q < 9 \<Longrightarrow> pieces_at s q = pieces_at t q"
  shows "s = t"
proof (rule bit_word_eqI)
  fix n assume "n < LENGTH(64)"
  show "bit s n = bit t n"
  proof (cases "n < 54")
    case True
    then have q: "n div 6 < 9" by simp
    have n: "6 * (n div 6) + n mod 6 = n" by simp
    have "bit (pieces_at s (n div 6)) (n mod 6) = bit (pieces_at t (n div 6)) (n mod 6)"
      using assms(3)[OF q] by simp
    then show ?thesis unfolding bit_pieces_at n by simp
  next
    case False
    then show ?thesis using board_bit[OF assms(1), of n] board_bit[OF assms(2), of n] by blast
  qed
qed

lemma fu_lt: "q < 9 \<Longrightarrow> fu q < 9"
  by (auto simp add: fu_def)

lemma perm_Suc_0: "fu (Suc 0) = 7" "at (Suc 0) = 5"
  by (simp_all add: fu_def at_def)

lemma at_lt: "q < 9 \<Longrightarrow> at q < 9"
  by (simp add: at_def)

lemma fu_fu: "q < 9 \<Longrightarrow> fu (fu q) = q"
  by (auto simp add: fu_def)

lemma at_at: "q < 9 \<Longrightarrow> at (at q) = q"
  using sq_cases[of q] by (auto simp add: at_values perm_Suc_0)

lemma flipud_flipud: "board s \<Longrightarrow> flipud (flipud s) = s"
  by (rule board_eqI) (simp_all add: board_flipud pieces_at_flipud fu_lt fu_fu)

lemma antitranspose_antitranspose: "board s \<Longrightarrow> antitranspose (antitranspose s) = s"
  by (rule board_eqI) (simp_all add: board_antitranspose pieces_at_antitranspose at_lt at_at)

lemma rotation_relation:
  assumes "board s"
  shows "antitranspose s =
    flipud (antitranspose (flipud (antitranspose (flipud (antitranspose (flipud s))))))"
proof (rule board_eqI)
  fix q :: nat assume "q < 9"
  from sq_cases[OF this]
  show "pieces_at (antitranspose s) q =
    pieces_at (flipud (antitranspose (flipud (antitranspose (flipud (antitranspose (flipud s))))))) q"
    by (elim disjE)
      (simp_all add: assms board_flipud board_antitranspose pieces_at_flipud
        pieces_at_antitranspose fu_values at_values perm_Suc_0)
qed (simp_all add: board_flipud board_antitranspose)

lemma if_less_min: "(if a < b then a else b) = min a (b :: 64 word)"
  by (auto simp add: min_def)

lemma min_chain:
  "min h (min g (min f (min e (min d (min c (min b a)))))) =
     Min (set [a, b, c, d, e, f, g, h :: 64 word])"
  unfolding Min.set_eq_fold by (simp only: fold.simps o_apply id_apply)

lemma canonical_Min: "canonical s = Min (set (orbit s))"
  unfolding canonical_def orbit_def if_less_min Let_def
  by (rule min_chain)

lemma orbit_flipud: "board s \<Longrightarrow> set (orbit (flipud s)) = set (orbit s)"
  unfolding orbit_def
  using rotation_relation[of s]
  by (simp add: flipud_flipud antitranspose_antitranspose board_flipud board_antitranspose) auto

lemma orbit_antitranspose: "board s \<Longrightarrow> set (orbit (antitranspose s)) = set (orbit s)"
  unfolding orbit_def
  using rotation_relation[of s]
  by (simp add: flipud_flipud antitranspose_antitranspose board_flipud board_antitranspose) auto

lemma canonical_flipud: "board s \<Longrightarrow> canonical (flipud s) = canonical s"
  by (simp only: canonical_Min orbit_flipud)

lemma canonical_antitranspose: "board s \<Longrightarrow> canonical (antitranspose s) = canonical s"
  by (simp only: canonical_Min orbit_antitranspose)

lemma canonical_in_orbit: "canonical s \<in> set (orbit s)"
  unfolding canonical_Min by (rule Min_in) (simp_all add: orbit_def)

lemma self_in_orbit: "s \<in> set (orbit s)"
  by (simp add: orbit_def)

lemma orbit_same:
  assumes "board s" "x \<in> set (orbit s)"
  shows "set (orbit x) = set (orbit s) \<and> board x"
proof -
  have "x = s \<or> x = flipud s \<or> x = antitranspose (flipud s) \<or>
     x = flipud (antitranspose (flipud s)) \<or>
     x = antitranspose (flipud (antitranspose (flipud s))) \<or>
     x = flipud (antitranspose (flipud (antitranspose (flipud s)))) \<or>
     x = antitranspose (flipud (antitranspose (flipud (antitranspose (flipud s))))) \<or>
     x = flipud (antitranspose (flipud (antitranspose (flipud (antitranspose (flipud s))))))"
    using assms(2) by (simp add: orbit_def)
  then show ?thesis
    by (elim disjE)
      (simp_all add: assms(1) orbit_flipud orbit_antitranspose board_flipud board_antitranspose)
qed

lemma dihedral_orbit:
  assumes "g \<in> dihedral" "board s"
  shows "set (orbit (g s)) = set (orbit s) \<and> board (g s)"
  using assms(1)
proof induction
  case identity
  show ?case using assms(2) by simp
next
  case (after_flipud g)
  then show ?case by (simp add: orbit_flipud board_flipud)
next
  case (after_antitranspose g)
  then show ?case by (simp add: orbit_antitranspose board_antitranspose)
qed

lemma length_orbit: "length (orbit s) = 8"
  by (simp add: orbit_def)

text \<open>
  Claim C7. For every 54-bit board state \<open>s\<close>, \<open>canonical (canonical s) = canonical s\<close>,
  and \<open>canonical (g s) = canonical s\<close> for every element \<open>g\<close> of the dihedral group
  generated by \<open>flipud\<close> and \<open>antitranspose\<close>; every such image \<open>g s\<close> is one of the eight
  boards that \<open>canonical\<close> compares.
\<close>

theorem canonical_idempotent_invariant:
  assumes "board s"
  shows "canonical (canonical s) = canonical s \<and>
         (\<forall>g \<in> dihedral. canonical (g s) = canonical s \<and> g s \<in> set (orbit s))"
proof (intro conjI ballI)
  show "canonical (canonical s) = canonical s"
    using orbit_same[OF assms canonical_in_orbit] by (simp only: canonical_Min)
next
  fix g assume g: "g \<in> dihedral"
  from dihedral_orbit[OF g assms] have o: "set (orbit (g s)) = set (orbit s)" ..
  then show "canonical (g s) = canonical s"
    by (simp only: canonical_Min)
  show "g s \<in> set (orbit s)"
    using self_in_orbit[of "g s"] o by simp
qed

theorem canonical_idempotent_invariant_witness:
  "board 0x1081 \<and> flipud \<circ> antitranspose \<in> dihedral \<and>
   canonical (canonical 0x1081) = canonical 0x1081 \<and>
   canonical ((flipud \<circ> antitranspose) 0x1081) = canonical 0x1081"
proof -
  have b: "board 0x1081" by (simp add: board_def STATE_MASK_def)
  have g: "flipud \<circ> antitranspose \<in> dihedral"
    using dihedral.after_flipud[OF dihedral.after_antitranspose[OF dihedral.identity]] by simp
  from canonical_idempotent_invariant[OF b] g b show ?thesis by blast
qed

lemma dihedral_terminal:
  assumes "g \<in> dihedral" "board s"
  shows "get_terminal_value (g s) = get_terminal_value s \<and> board (g s)"
  using assms(1)
proof induction
  case identity
  show ?case using assms(2) by simp
next
  case (after_flipud g)
  then show ?case by (simp add: terminal_flipud board_flipud)
next
  case (after_antitranspose g)
  then show ?case by (simp add: terminal_antitranspose board_antitranspose)
qed

text \<open>
  Claim C10. For every 54-bit board state \<open>s\<close>, the terminal value is invariant under the
  board symmetries: \<open>get_terminal_value (flipud s) = get_terminal_value s\<close>,
  \<open>get_terminal_value (antitranspose s) = get_terminal_value s\<close>, and so the terminal value
  of every dihedral image of \<open>s\<close> equals that of \<open>s\<close>.
\<close>

theorem terminal_value_symmetric:
  assumes "board s"
  shows "get_terminal_value (flipud s) = get_terminal_value s \<and>
         get_terminal_value (antitranspose s) = get_terminal_value s \<and>
         (\<forall>g \<in> dihedral. get_terminal_value (g s) = get_terminal_value s)"
  using dihedral_terminal[OF _ assms]
  by (simp add: terminal_flipud[OF assms] terminal_antitranspose[OF assms])

theorem terminal_value_symmetric_witness:
  "board 0x4410 \<and> get_terminal_value (flipud 0x4410) = get_terminal_value 0x4410 \<and>
   get_terminal_value (antitranspose 0x4410) = get_terminal_value 0x4410 \<and>
   get_terminal_value ((antitranspose \<circ> flipud) 0x4410) = get_terminal_value 0x4410"
proof -
  have b: "board 0x4410" by (simp add: board_def STATE_MASK_def)
  have g: "antitranspose \<circ> flipud \<in> dihedral"
    using dihedral.after_antitranspose[OF dihedral.after_flipud[OF dihedral.identity]] by simp
  from terminal_value_symmetric[OF b] g b show ?thesis by blast
qed

end
